theory Spec2Isabelle
  imports Complex_Main "HOL-Library.Finite_Map" "HOL-Library.Product_Lexorder"
    "HOL-Library.List_Lexorder" "HOL-Library.Char_ord"
begin

section \<open>Data model\<close>

text \<open>
  An edge is the dictionary that \<open>load_edges\<close> (and \<open>make_edge\<close> in \<open>gen_edges.py\<close>)
  builds: every key is always present, so the \<open>float("inf")\<close> defaults of the
  \<open>.get\<close> calls in \<open>get_edge_weight\<close> are never taken for the four magnitudes, and
  neither is the \<open>0.5\<close> default of the safety score. Magnitudes are Python floats:
  finite doubles, which are real numbers, compared as real numbers.

  The sum of two doubles is rounded to a double, so \<open>cost + weight\<close> in the source is not
  the sum of the reals. The searches therefore take the addition they use as an argument
  \<open>fadd\<close>, which stands for the addition of doubles (with sums that stay finite). Nothing is
  assumed about \<open>fadd\<close> except where a theorem says so: that adding zero changes nothing
  (\<open>zero_neutral\<close>, true of doubles), or that the sums formed on the way are exact
  (\<open>exact_sums\<close>, true for instance of small whole numbers). The example runs below add
  small whole numbers, on which the addition of doubles is \<open>(+)\<close>.

  Node identifiers are city names; the searches only hash and compare them, so they are a
  type parameter with a linear order (the order is needed because \<open>heapq\<close> compares whole
  tuples).
\<close>

record 'n edge =
  source :: 'n
  target :: 'n
  mode :: string
  distance_km :: real
  time_min :: real
  cost_usd :: real
  emission_kgco2 :: real
  safety_score :: real
  accessible :: bool

text \<open>
  The elements of a neighbour list are Python tuples. \<open>build_adjacency\<close> appends
  2-tuples \<open>(neighbor, edge)\<close>; \<open>neighbor_generator\<close> yields 3-tuples
  \<open>(neighbor, weight, edge)\<close>, and the loops of \<open>algorithms.py\<close> unpack 3-tuples
  (\<open>for neigh, w, edge in adj.get(node, [])\<close>). Both shapes are values the searches can
  receive, so both are constructors.
\<close>

datatype 'n entry =
    Entry2 (dest: 'n) (rec: "'n edge")
  | Entry3 (dest: 'n) (given_weight: real) (rec: "'n edge")

type_synonym 'n adjacency = "('n, 'n entry list) fmap"

text \<open>Unpacking a 2-tuple into three names raises \<open>ValueError\<close>.\<close>

datatype error = ValueError

text \<open>The cost component of a result: a float, or \<open>float("inf")\<close>.\<close>

datatype cost = Finite real | Infinity

datatype ('s, 'r) outcome = Raise error | Return 'r | Continue 's

section \<open>\<open>data_loader.py\<close>\<close>

definition get_edge_weight :: "'n edge \<Rightarrow> string \<Rightarrow> real" where
  "get_edge_weight e factor =
    (if factor = ''distance'' then distance_km e
     else if factor = ''time'' then time_min e
     else if factor = ''cost'' then cost_usd e
     else if factor = ''eco'' then emission_kgco2 e
     else if factor = ''safety'' then 1 - safety_score e
     else distance_km e)"

text \<open>\<open>adj.get(node, [])\<close>\<close>

definition adj_get :: "'n adjacency \<Rightarrow> 'n \<Rightarrow> 'n entry list" where
  "adj_get adj node = (case fmlookup adj node of Some es \<Rightarrow> es | None \<Rightarrow> [])"

text \<open>\<open>adj[k].append(x)\<close> on a \<open>defaultdict(list)\<close>\<close>

definition append_entry :: "'n adjacency \<Rightarrow> 'n \<Rightarrow> 'n entry \<Rightarrow> 'n adjacency" where
  "append_entry adj k x = fmupd k (adj_get adj k @ [x]) adj"

fun build_adjacency_loop :: "bool \<Rightarrow> 'n edge list \<Rightarrow> 'n adjacency \<Rightarrow> 'n adjacency" where
  "build_adjacency_loop directed [] adj = adj"
| "build_adjacency_loop directed (e # es) adj =
    (let s = source e; t = target e;
         adj1 = append_entry adj s (Entry2 t e);
         adj2 = (if \<not> directed
                 then append_entry adj1 t (Entry2 s (e\<lparr>source := t, target := s\<rparr>))
                 else adj1)
     in build_adjacency_loop directed es adj2)"

definition build_adjacency :: "'n edge list \<Rightarrow> bool \<Rightarrow> 'n adjacency" where
  "build_adjacency edges directed = build_adjacency_loop directed edges fmempty"

section \<open>The priority queue\<close>

text \<open>
  \<open>heapq\<close> keeps a binary heap in a list. The searches use it only through
  \<open>heappush\<close> and \<open>heappop\<close>, and \<open>heappop\<close> returns the smallest item of the heap.
  The items are tuples of a float, a string and a list of strings, which Python compares
  lexicographically; that order is linear, so two items that compare equal are the same
  value and the popped item is determined by the items in the heap, whatever their
  layout. The heap is therefore modelled as the list of its items.
\<close>

definition heappush :: "'a list \<Rightarrow> 'a \<Rightarrow> 'a list" where
  "heappush pq x = x # pq"

definition heappop :: "'a::linorder list \<Rightarrow> 'a \<times> 'a list" where
  "heappop pq = (let m = Min (set pq) in (m, remove1 m pq))"

section \<open>\<open>algorithms.py\<close>\<close>

type_synonym 'n dentry = "real \<times> 'n \<times> 'n list"

type_synonym 'n aentry = "real \<times> real \<times> 'n \<times> 'n list"

text \<open>The \<open>for\<close> loop of \<open>dijkstra\<close> over the neighbour list of the finalized node.\<close>

fun dijkstra_push ::
  "(real \<Rightarrow> real \<Rightarrow> real) \<Rightarrow> string \<Rightarrow> real \<Rightarrow> 'n list \<Rightarrow> 'n entry list \<Rightarrow> 'n dentry list
    \<Rightarrow> error + 'n dentry list" where
  "dijkstra_push fadd factor cost path [] pq = Inr pq"
| "dijkstra_push fadd factor cost path (Entry3 neigh w e # es) pq =
    dijkstra_push fadd factor cost path es
      (heappush pq (fadd cost (get_edge_weight e factor), neigh, path))"
| "dijkstra_push fadd factor cost path (Entry2 neigh e # es) pq = Inl ValueError"

text \<open>One iteration of the \<open>while\<close> loop of \<open>dijkstra\<close>, entered with a non-empty heap.\<close>

definition dijkstra_step ::
  "(real \<Rightarrow> real \<Rightarrow> real) \<Rightarrow> 'n::linorder adjacency \<Rightarrow> 'n \<Rightarrow> string \<Rightarrow> 'n dentry list \<Rightarrow> 'n set
    \<Rightarrow> ('n dentry list \<times> 'n set, cost \<times> 'n list) outcome" where
  "dijkstra_step fadd adj goal factor pq visited =
    (case heappop pq of ((cost, node, path), pq') \<Rightarrow>
      if node \<in> visited then Continue (pq', visited)
      else if node = goal then Return (Finite cost, path @ [node])
      else
        (case dijkstra_push fadd factor cost (path @ [node]) (adj_get adj node) pq' of
           Inl err \<Rightarrow> Raise err
         | Inr pq'' \<Rightarrow> Continue (pq'', insert node visited)))"

text \<open>The \<open>for\<close> loop of \<open>astar\<close>.\<close>

fun astar_push ::
  "(real \<Rightarrow> real \<Rightarrow> real) \<Rightarrow> ('n \<Rightarrow> 'n \<Rightarrow> real) \<Rightarrow> 'n \<Rightarrow> string \<Rightarrow> real \<Rightarrow> 'n list \<Rightarrow> 'n entry list
    \<Rightarrow> 'n aentry list \<Rightarrow> error + 'n aentry list" where
  "astar_push fadd heuristic_fn goal factor cost path [] pq = Inr pq"
| "astar_push fadd heuristic_fn goal factor cost path (Entry3 neigh w e # es) pq =
    (let g = fadd cost (get_edge_weight e factor);
         f = fadd g (heuristic_fn neigh goal)
     in astar_push fadd heuristic_fn goal factor cost path es (heappush pq (f, g, neigh, path)))"
| "astar_push fadd heuristic_fn goal factor cost path (Entry2 neigh e # es) pq = Inl ValueError"

definition astar_step ::
  "(real \<Rightarrow> real \<Rightarrow> real) \<Rightarrow> 'n::linorder adjacency \<Rightarrow> 'n \<Rightarrow> string \<Rightarrow> ('n \<Rightarrow> 'n \<Rightarrow> real) \<Rightarrow> 'n aentry list \<Rightarrow> 'n set
    \<Rightarrow> ('n aentry list \<times> 'n set, cost \<times> 'n list) outcome" where
  "astar_step fadd adj goal factor heuristic_fn pq visited =
    (case heappop pq of ((est, cost, node, path), pq') \<Rightarrow>
      if node \<in> visited then Continue (pq', visited)
      else if node = goal then Return (Finite cost, path @ [node])
      else
        (case astar_push fadd heuristic_fn goal factor cost (path @ [node]) (adj_get adj node) pq' of
           Inl err \<Rightarrow> Raise err
         | Inr pq'' \<Rightarrow> Continue (pq'', insert node visited)))"

subsection \<open>Termination of the loops\<close>

lemma heappop_length:
  "pq \<noteq> [] \<Longrightarrow> heappop pq = (m, pq') \<Longrightarrow> Suc (length pq') = length pq"
  by (auto simp: heappop_def Let_def length_remove1 split: if_splits)

lemma adj_get_notin: "node \<notin> fmdom' adj \<Longrightarrow> adj_get adj node = []"
  by (auto simp: adj_get_def fmdom'_notI split: option.splits)

definition loop_measure :: "'n adjacency \<Rightarrow> 'b list \<Rightarrow> 'n set \<Rightarrow> nat \<times> nat" where
  "loop_measure adj pq visited = (card (fmdom' adj - visited), length pq)"

lemma loop_measure_skip:
  assumes "pq \<noteq> []" "heappop pq = (m, pq')"
  shows "(loop_measure adj pq' visited, loop_measure adj pq visited) \<in> less_than <*lex*> less_than"
  using heappop_length[OF assms] by (auto simp: loop_measure_def)

lemma loop_measure_expand:
  assumes "pq \<noteq> []" "heappop pq = (m, pq')" "node \<notin> visited"
    and "adj_get adj node = [] \<Longrightarrow> pq'' = pq'"
  shows "(loop_measure adj pq'' (insert node visited), loop_measure adj pq visited)
           \<in> less_than <*lex*> less_than"
proof (cases "node \<in> fmdom' adj")
  case True
  have "fmdom' adj - insert node visited \<subset> fmdom' adj - visited"
    using True assms(3) by auto
  then have "card (fmdom' adj - insert node visited) < card (fmdom' adj - visited)"
    by (intro psubset_card_mono) auto
  then show ?thesis by (simp add: loop_measure_def)
next
  case False
  then have "pq'' = pq'" using assms(4) adj_get_notin by metis
  moreover have "fmdom' adj - insert node visited = fmdom' adj - visited" using False by auto
  ultimately show ?thesis using heappop_length[OF assms(1,2)] by (auto simp: loop_measure_def)
qed

lemma dijkstra_step_decreases:
  assumes "pq \<noteq> []" "dijkstra_step fadd adj goal factor pq visited = Continue (pq', visited')"
  shows "(loop_measure adj pq' visited', loop_measure adj pq visited)
           \<in> less_than <*lex*> less_than"
proof -
  obtain cost node path pq1 where pop: "heappop pq = ((cost, node, path), pq1)"
    by (cases "heappop pq") auto
  show ?thesis
  proof (cases "node \<in> visited")
    case True
    with assms(2) pop have "pq' = pq1" "visited' = visited"
      by (auto simp: dijkstra_step_def)
    then show ?thesis using loop_measure_skip[OF assms(1) pop] by simp
  next
    case False
    with assms(2) pop have push:
      "dijkstra_push fadd factor cost (path @ [node]) (adj_get adj node) pq1 = Inr pq'"
      and v: "visited' = insert node visited"
      by (auto simp: dijkstra_step_def split: if_splits sum.splits)
    have "adj_get adj node = [] \<Longrightarrow> pq' = pq1" using push by simp
    then show ?thesis using loop_measure_expand[OF assms(1) pop False] v by simp
  qed
qed

lemma astar_step_decreases:
  assumes "pq \<noteq> []" "astar_step fadd adj goal factor h pq visited = Continue (pq', visited')"
  shows "(loop_measure adj pq' visited', loop_measure adj pq visited)
           \<in> less_than <*lex*> less_than"
proof -
  obtain est cost node path pq1 where pop: "heappop pq = ((est, cost, node, path), pq1)"
    by (cases "heappop pq") auto
  show ?thesis
  proof (cases "node \<in> visited")
    case True
    with assms(2) pop have "pq' = pq1" "visited' = visited"
      by (auto simp: astar_step_def)
    then show ?thesis using loop_measure_skip[OF assms(1) pop] by simp
  next
    case False
    with assms(2) pop have push:
      "astar_push fadd h goal factor cost (path @ [node]) (adj_get adj node) pq1 = Inr pq'"
      and v: "visited' = insert node visited"
      by (auto simp: astar_step_def split: if_splits sum.splits)
    have "adj_get adj node = [] \<Longrightarrow> pq' = pq1" using push by simp
    then show ?thesis using loop_measure_expand[OF assms(1) pop False] v by simp
  qed
qed

subsection \<open>The searches\<close>

function dijkstra_loop ::
  "(real \<Rightarrow> real \<Rightarrow> real) \<Rightarrow> 'n::linorder adjacency \<Rightarrow> 'n \<Rightarrow> string \<Rightarrow> 'n dentry list \<Rightarrow> 'n set
    \<Rightarrow> error + (cost \<times> 'n list)" where
  "dijkstra_loop fadd adj goal factor pq visited =
    (if pq = [] then Inr (Infinity, [])
     else
       (case dijkstra_step fadd adj goal factor pq visited of
          Raise err \<Rightarrow> Inl err
        | Return r \<Rightarrow> Inr r
        | Continue (pq', visited') \<Rightarrow> dijkstra_loop fadd adj goal factor pq' visited'))"
  by pat_completeness auto

termination
  by (relation "inv_image (less_than <*lex*> less_than)
        (\<lambda>(fadd, adj, goal, factor, pq, visited). loop_measure adj pq visited)")
     (auto intro: dijkstra_step_decreases)

declare dijkstra_loop.simps [simp del]

definition dijkstra ::
  "(real \<Rightarrow> real \<Rightarrow> real) \<Rightarrow> 'n::linorder adjacency \<Rightarrow> 'n \<Rightarrow> 'n \<Rightarrow> string \<Rightarrow> error + (cost \<times> 'n list)" where
  "dijkstra fadd adj start goal factor = dijkstra_loop fadd adj goal factor [(0, start, [])] {}"

function astar_loop ::
  "(real \<Rightarrow> real \<Rightarrow> real) \<Rightarrow> 'n::linorder adjacency \<Rightarrow> 'n \<Rightarrow> string \<Rightarrow> ('n \<Rightarrow> 'n \<Rightarrow> real) \<Rightarrow> 'n aentry list \<Rightarrow> 'n set
    \<Rightarrow> error + (cost \<times> 'n list)" where
  "astar_loop fadd adj goal factor heuristic_fn pq visited =
    (if pq = [] then Inr (Infinity, [])
     else
       (case astar_step fadd adj goal factor heuristic_fn pq visited of
          Raise err \<Rightarrow> Inl err
        | Return r \<Rightarrow> Inr r
        | Continue (pq', visited') \<Rightarrow> astar_loop fadd adj goal factor heuristic_fn pq' visited'))"
  by pat_completeness auto

termination
  by (relation "inv_image (less_than <*lex*> less_than)
        (\<lambda>(fadd, adj, goal, factor, h, pq, visited). loop_measure adj pq visited)")
     (auto intro: astar_step_decreases)

declare astar_loop.simps [simp del]

text \<open>
  \<open>astar\<close> takes the heuristic as an argument; when the caller passes none, the source
  uses \<open>data_loader.heuristic\<close> over the \<open>nodes\<close> table, which is one such function.
\<close>

definition astar ::
  "(real \<Rightarrow> real \<Rightarrow> real) \<Rightarrow> 'n::linorder adjacency \<Rightarrow> 'n \<Rightarrow> 'n \<Rightarrow> string \<Rightarrow> ('n \<Rightarrow> 'n \<Rightarrow> real)
    \<Rightarrow> error + (cost \<times> 'n list)" where
  "astar fadd adj start goal factor heuristic_fn =
    astar_loop fadd adj goal factor heuristic_fn
      [(fadd 0 (heuristic_fn start goal), 0, start, [])] {}"

section \<open>Walks, optimal costs and heuristics\<close>

text \<open>The tuples the loops of \<open>algorithms.py\<close> can unpack.\<close>

fun is_triple :: "'n entry \<Rightarrow> bool" where
  "is_triple (Entry3 neigh w e) = True"
| "is_triple (Entry2 neigh e) = False"

text \<open>The weight of an entry's edge under a metric, as both loops compute it.\<close>

definition weight :: "string \<Rightarrow> 'n entry \<Rightarrow> real" where
  "weight factor x = get_edge_weight (rec x) factor"

text \<open>
  \<open>walk adj factor start p c v\<close>: the node sequence \<open>p\<close> leads from \<open>start\<close> to \<open>v\<close> along
  entries of the view, and the weights of the edges taken add up to \<open>c\<close>. Parallel edges
  give several walks over the same node sequence.
\<close>

inductive walk :: "'n adjacency \<Rightarrow> string \<Rightarrow> 'n \<Rightarrow> 'n list \<Rightarrow> real \<Rightarrow> 'n \<Rightarrow> bool"
  for adj factor start where
  walk_start: "walk adj factor start [start] 0 start"
| walk_edge: "walk adj factor start p c v \<Longrightarrow> x \<in> set (adj_get adj v)
    \<Longrightarrow> walk adj factor start (p @ [dest x]) (c + weight factor x) (dest x)"

definition triples :: "'n adjacency \<Rightarrow> bool" where
  "triples adj = (\<forall>v \<in> fmdom' adj. list_all is_triple (adj_get adj v))"

definition nonneg_weights :: "'n adjacency \<Rightarrow> string \<Rightarrow> bool" where
  "nonneg_weights adj factor =
     (\<forall>v \<in> fmdom' adj. list_all (\<lambda>x. 0 \<le> weight factor x) (adj_get adj v))"

text \<open>The estimate never drops by more than the weight of the edge taken.\<close>

definition consistent :: "'n adjacency \<Rightarrow> string \<Rightarrow> ('n \<Rightarrow> 'n \<Rightarrow> real) \<Rightarrow> 'n \<Rightarrow> bool" where
  "consistent adj factor h goal =
     (\<forall>v \<in> fmdom' adj. list_all (\<lambda>x. h v goal \<le> weight factor x + h (dest x) goal) (adj_get adj v))"


text \<open>No walk from \<open>start\<close> to \<open>v\<close> costs less than \<open>d\<close>.\<close>

definition optimal :: "'n adjacency \<Rightarrow> string \<Rightarrow> 'n \<Rightarrow> 'n \<Rightarrow> real \<Rightarrow> bool" where
  "optimal adj factor start v d = (\<forall>p c. walk adj factor start p c v \<longrightarrow> d \<le> c)"

text \<open>The range checks the spec puts on an edge record.\<close>

definition well_formed_edge :: "'n edge \<Rightarrow> bool" where
  "well_formed_edge e =
     (0 \<le> distance_km e \<and> 0 \<le> time_min e \<and> 0 \<le> cost_usd e \<and> 0 \<le> emission_kgco2 e \<and>
      0 \<le> safety_score e \<and> safety_score e \<le> 1)"

text \<open>The frontier entry each loop pushes for an outgoing edge.\<close>

definition dijkstra_entry ::
  "(real \<Rightarrow> real \<Rightarrow> real) \<Rightarrow> string \<Rightarrow> real \<Rightarrow> 'n list \<Rightarrow> 'n entry \<Rightarrow> 'n dentry" where
  "dijkstra_entry fadd factor cost path x = (fadd cost (weight factor x), dest x, path)"

definition astar_entry ::
  "(real \<Rightarrow> real \<Rightarrow> real) \<Rightarrow> ('n \<Rightarrow> 'n \<Rightarrow> real) \<Rightarrow> 'n \<Rightarrow> string \<Rightarrow> real \<Rightarrow> 'n list
     \<Rightarrow> 'n entry \<Rightarrow> 'n aentry" where
  "astar_entry fadd h goal factor cost path x =
     (fadd (fadd cost (weight factor x)) (h (dest x) goal), fadd cost (weight factor x),
      dest x, path)"

text \<open>
  The sums the searches form along duplicate-free walks from \<open>start\<close> are exact: adding an
  edge weight to the cost of such a walk, and adding the estimate to the result, round
  nothing. Small integral magnitudes are an instance.
\<close>

definition exact_sums ::
  "(real \<Rightarrow> real \<Rightarrow> real) \<Rightarrow> 'n adjacency \<Rightarrow> string \<Rightarrow> ('n \<Rightarrow> 'n \<Rightarrow> real) \<Rightarrow> 'n \<Rightarrow> 'n \<Rightarrow> bool" where
  "exact_sums fadd adj factor h start goal =
     (fadd 0 (h start goal) = h start goal \<and>
      (\<forall>p c v. walk adj factor start p c v \<and> distinct p \<longrightarrow>
         list_all (\<lambda>x. fadd c (weight factor x) = c + weight factor x \<and>
                       fadd (c + weight factor x) (h (dest x) goal) =
                         c + weight factor x + h (dest x) goal)
           (adj_get adj v)))"

text \<open>Adding zero changes nothing, as for doubles.\<close>

definition zero_neutral :: "(real \<Rightarrow> real \<Rightarrow> real) \<Rightarrow> bool" where
  "zero_neutral fadd = (\<forall>x. fadd x 0 = x)"

text \<open>The outcome of a search that is optimal, and of one that found a walk.\<close>

definition search_correct ::
  "'n adjacency \<Rightarrow> string \<Rightarrow> 'n \<Rightarrow> 'n \<Rightarrow> error + (cost \<times> 'n list) \<Rightarrow> bool" where
  "search_correct adj factor start goal r =
    ((\<exists>c p. r = Inr (Finite c, p) \<and> walk adj factor start p c goal \<and>
            optimal adj factor start goal c) \<or>
     (r = Inr (Infinity, []) \<and> (\<forall>p c. \<not> walk adj factor start p c goal)))"

definition search_sound ::
  "'n adjacency \<Rightarrow> string \<Rightarrow> 'n \<Rightarrow> 'n \<Rightarrow> error + (cost \<times> 'n list) \<Rightarrow> bool" where
  "search_sound adj factor start goal r =
    ((\<exists>c p. r = Inr (Finite c, p) \<and> (\<exists>c'. walk adj factor start p c' goal)) \<or>
     r = Inr (Infinity, []))"

section \<open>Invariants of the loops\<close>

text \<open>A frontier entry of \<open>dijkstra\<close> as the entry \<open>astar\<close> holds under the zero heuristic.\<close>

definition lift :: "'n dentry \<Rightarrow> 'n aentry" where
  "lift x = (fst x, x)"

text \<open>
  The loop invariant of \<open>astar\<close> under a consistent heuristic: every frontier entry records a
  walk and its estimate; the start is finalized or its first entry is still in the heap;
  every finalized node has its optimal cost, and each of its edges to a node not yet
  finalized has an entry in the heap; the goal is never finalized.
\<close>

definition astar_inv ::
  "'n::linorder adjacency \<Rightarrow> string \<Rightarrow> ('n \<Rightarrow> 'n \<Rightarrow> real) \<Rightarrow> 'n \<Rightarrow> 'n \<Rightarrow> 'n aentry list \<Rightarrow> 'n set \<Rightarrow> bool" where
  "astar_inv adj factor h start goal pq visited =
    ((\<forall>est c n p. (est, c, n, p) \<in> set pq \<longrightarrow>
         est = c + h n goal \<and> walk adj factor start (p @ [n]) c n) \<and>
     (start \<in> visited \<or> (h start goal, 0, start, []) \<in> set pq) \<and>
     (\<forall>u \<in> visited. \<exists>d. optimal adj factor start u d \<and>
         (\<forall>x \<in> set (adj_get adj u). dest x \<notin> visited \<longrightarrow>
            (\<exists>p. astar_entry (+) h goal factor d p x \<in> set pq))) \<and>
     goal \<notin> visited)"

definition walk_inv :: "'n adjacency \<Rightarrow> string \<Rightarrow> 'n \<Rightarrow> 'n aentry list \<Rightarrow> bool" where
  "walk_inv adj factor start pq =
     (\<forall>est c n p. (est, c, n, p) \<in> set pq \<longrightarrow> (\<exists>c'. walk adj factor start (p @ [n]) c' n))"

definition simple_inv :: "'n aentry list \<Rightarrow> 'n set \<Rightarrow> bool" where
  "simple_inv pq visited =
     (\<forall>est c n p. (est, c, n, p) \<in> set pq \<longrightarrow> distinct p \<and> set p \<subseteq> visited)"

definition dsimple_inv :: "'n dentry list \<Rightarrow> 'n set \<Rightarrow> bool" where
  "dsimple_inv pq visited =
     (\<forall>c n p. (c, n, p) \<in> set pq \<longrightarrow> distinct p \<and> set p \<subseteq> visited)"

definition only_pairs :: "'n adjacency \<Rightarrow> bool" where
  "only_pairs adj = (\<forall>v. \<forall>x \<in> set (adj_get adj v). \<not> is_triple x)"

section \<open>Example inputs\<close>

text \<open>
  Two small views of triples over city names. \<open>steep\<close> is a lower bound on the second view
  that is not consistent; \<open>remaining2\<close> is the true remaining cost to \<open>g\<close> there; \<open>gentle\<close> is
  consistent on the first view.
\<close>

definition road :: "string \<Rightarrow> string \<Rightarrow> real \<Rightarrow> string edge" where
  "road s t d = \<lparr>source = s, target = t, mode = ''car'', distance_km = d, time_min = 2 * d,
     cost_usd = 3 * d, emission_kgco2 = 4 * d, safety_score = 1 / 2, accessible = True\<rparr>"

definition hop :: "string \<Rightarrow> string \<Rightarrow> real \<Rightarrow> string entry" where
  "hop s t d = Entry3 t d (road s t d)"

definition view1 :: "string adjacency" where
  "view1 = fmap_of_list
     [(''a'', [hop ''a'' ''b'' 1, hop ''a'' ''c'' 5]),
      (''b'', [hop ''b'' ''c'' 1, hop ''b'' ''a'' 1])]"




definition gentle :: "string \<Rightarrow> string \<Rightarrow> real" where
  "gentle u v = (if u = ''a'' \<and> v = ''c'' then 1 else 0)"

lemmas eval_simps = dijkstra_def astar_def dijkstra_loop.simps astar_loop.simps
  dijkstra_step_def astar_step_def heappop_def heappush_def adj_get_def get_edge_weight_def
  road_def hop_def build_adjacency_def append_entry_def weight_def Let_def

section \<open>Lemmas\<close>

subsection \<open>Properties of the priority queue\<close>

lemma heappop_props:
  assumes "pq \<noteq> []" "heappop pq = (m, pq')"
  shows "m \<in> set pq" "\<And>x. x \<in> set pq \<Longrightarrow> m \<le> x" "pq' = remove1 m pq"
  using assms by (auto simp: heappop_def Let_def)

lemma heappop_rest:
  assumes "pq \<noteq> []" "heappop pq = (m, pq')"
  shows "set pq' \<subseteq> set pq" "\<And>x. x \<in> set pq \<Longrightarrow> x \<noteq> m \<Longrightarrow> x \<in> set pq'"
  using heappop_props(3)[OF assms] set_remove1_subset[of m pq] by (auto simp: in_set_remove1)

lemma lift_simp [simp]: "lift (c, n, p) = (c, c, n, p)"
  by (simp add: lift_def)

lemma inj_lift: "inj lift"
  by (auto simp: inj_def lift_def)

lemma mono_lift: "mono (lift :: 'n::linorder dentry \<Rightarrow> _)"
  by (auto simp: mono_def lift_def less_eq_prod_def)

lemma remove1_map_inj: "inj f \<Longrightarrow> remove1 (f x) (map f xs) = map f (remove1 x xs)"
  by (induction xs) (auto dest: injD)

lemma heappop_lift:
  assumes "pq \<noteq> []"
  shows "heappop (map lift pq) = (lift (fst (heappop pq)), map lift (snd (heappop pq)))"
proof -
  have "Min (lift ` set pq) = lift (Min (set pq))"
    using mono_Min_commute[OF mono_lift, of "set pq"] assms by simp
  then show ?thesis
    by (simp add: heappop_def Let_def remove1_map_inj[OF inj_lift])
qed

lemma push_lift:
  assumes "zero_neutral fadd"
  shows "astar_push fadd (\<lambda>a b. 0) goal factor cost path es (map lift pq) =
     map_sum id (map lift) (dijkstra_push fadd factor cost path es pq)"
  using assms
  by (induction fadd factor cost path es pq rule: dijkstra_push.induct)
     (simp_all add: heappush_def zero_neutral_def)

lemma step_lift:
  assumes "pq \<noteq> []" "zero_neutral fadd"
  shows "astar_step fadd adj goal factor (\<lambda>a b. 0) (map lift pq) visited =
    (case dijkstra_step fadd adj goal factor pq visited of
       Raise err \<Rightarrow> Raise err
     | Return r \<Rightarrow> Return r
     | Continue (pq', visited') \<Rightarrow> Continue (map lift pq', visited'))"
proof -
  obtain cost node path pq1 where pop: "heappop pq = ((cost, node, path), pq1)"
    by (cases "heappop pq") auto
  then have "heappop (map lift pq) = ((cost, cost, node, path), map lift pq1)"
    using heappop_lift[OF assms(1)] by simp
  then show ?thesis using pop
    by (cases "dijkstra_push fadd factor cost (path @ [node]) (adj_get adj node) pq1")
       (simp_all add: astar_step_def dijkstra_step_def push_lift[OF assms(2)])
qed

lemma loop_lift:
  "zero_neutral fadd \<Longrightarrow>
   astar_loop fadd adj goal factor (\<lambda>a b. 0) (map lift pq) visited =
     dijkstra_loop fadd adj goal factor pq visited"
proof (induction fadd adj goal factor pq visited rule: dijkstra_loop.induct)
  case (1 fadd adj goal factor pq visited)
  note zn = "1.prems"
  show ?case
  proof (cases "pq = []")
    case True
    then show ?thesis by (simp add: astar_loop.simps dijkstra_loop.simps)
  next
    case False
    note sl = step_lift[OF False zn, of adj goal factor visited]
    show ?thesis
    proof (cases "dijkstra_step fadd adj goal factor pq visited")
      case (Raise e)
      then show ?thesis using False sl
        by (subst astar_loop.simps, subst dijkstra_loop.simps) simp
    next
      case (Return r)
      then show ?thesis using False sl
        by (subst astar_loop.simps, subst dijkstra_loop.simps) simp
    next
      case (Continue s)
      obtain pq' visited' where s: "s = (pq', visited')" by (cases s)
      have "astar_loop fadd adj goal factor (\<lambda>a b. 0) (map lift pq') visited' =
            dijkstra_loop fadd adj goal factor pq' visited'"
        using "1.IH"[OF False Continue _ zn] s by simp
      then show ?thesis using False Continue s sl
        by (subst astar_loop.simps, subst dijkstra_loop.simps) simp
    qed
  qed
qed

lemma astar_zero_dijkstra:
  "zero_neutral fadd \<Longrightarrow>
   astar fadd adj start goal factor (\<lambda>a b. 0) = dijkstra fadd adj start goal factor"
  using loop_lift[of fadd adj goal factor "[(0, start, [])]" "{}"]
  by (simp add: astar_def dijkstra_def zero_neutral_def)

subsection \<open>Walks and optimality\<close>

lemma triplesD: "triples adj \<Longrightarrow> list_all is_triple (adj_get adj v)"
  by (cases "v \<in> fmdom' adj") (auto simp: triples_def adj_get_notin)

lemma nonnegD: "nonneg_weights adj factor \<Longrightarrow> x \<in> set (adj_get adj v) \<Longrightarrow> 0 \<le> weight factor x"
  by (cases "v \<in> fmdom' adj") (auto simp: nonneg_weights_def adj_get_notin list_all_iff)

lemma consistentD:
  "consistent adj factor h goal \<Longrightarrow> x \<in> set (adj_get adj v)
     \<Longrightarrow> h v goal \<le> weight factor x + h (dest x) goal"
  by (cases "v \<in> fmdom' adj") (auto simp: consistent_def adj_get_notin list_all_iff)

lemma astar_push_triples:
  "list_all is_triple es \<Longrightarrow>
     astar_push fadd h goal factor cost path es pq =
       Inr (rev (map (astar_entry fadd h goal factor cost path) es) @ pq)"
proof (induction es arbitrary: pq)
  case Nil
  then show ?case by simp
next
  case (Cons x es)
  then show ?case
    by (cases x) (simp_all add: heappush_def astar_entry_def weight_def Let_def)
qed

lemma astar_push_not_triples:
  "\<not> list_all is_triple es \<Longrightarrow> astar_push fadd h goal factor cost path es pq = Inl ValueError"
proof (induction es arbitrary: pq)
  case Nil
  then show ?case by simp
next
  case (Cons x es)
  then show ?case by (cases x) (simp_all add: Let_def)
qed

lemma astar_push_Inr:
  assumes "astar_push fadd h goal factor cost path es pq = Inr pq''"
  shows "list_all is_triple es"
    and "pq'' = rev (map (astar_entry fadd h goal factor cost path) es) @ pq"
proof -
  show t: "list_all is_triple es"
    using assms astar_push_not_triples[of es fadd h goal factor cost path pq] by auto
  show "pq'' = rev (map (astar_entry fadd h goal factor cost path) es) @ pq"
    using assms astar_push_triples[OF t, of fadd h goal factor cost path pq] by simp
qed

lemma simple_inv_skip:
  assumes "simple_inv pq visited" "pq \<noteq> []" "heappop pq = (m, pq')"
  shows "simple_inv pq' visited"
  using assms(1) heappop_rest(1)[OF assms(2,3)] unfolding simple_inv_def by blast

lemma simple_inv_pop:
  assumes "simple_inv pq visited" "pq \<noteq> []" "heappop pq = ((est, c, n, path), pq')"
    and "n \<notin> visited"
  shows "distinct (path @ [n])" "set (path @ [n]) \<subseteq> insert n visited"
proof -
  have "distinct path \<and> set path \<subseteq> visited"
    using heappop_props(1)[OF assms(2,3)] assms(1) unfolding simple_inv_def by blast
  then show "distinct (path @ [n])" "set (path @ [n]) \<subseteq> insert n visited"
    using assms(4) by auto
qed

lemma simple_inv_expand:
  assumes inv: "simple_inv pq visited" and ne: "pq \<noteq> []"
    and pop: "heappop pq = ((est, c, n, path), pq')" and nv: "n \<notin> visited"
    and push: "astar_push fadd h goal factor c (path @ [n]) es pq' = Inr pq''"
  shows "simple_inv pq'' (insert n visited)"
  unfolding simple_inv_def
proof (intro allI impI)
  fix est' c' n' p' assume mem: "(est', c', n', p') \<in> set pq''"
  note dp = simple_inv_pop[OF inv ne pop nv]
  have "(est', c', n', p') \<in> set pq' \<or> p' = path @ [n]"
    using mem astar_push_Inr(2)[OF push] by (auto simp: astar_entry_def)
  then show "distinct p' \<and> set p' \<subseteq> insert n visited"
  proof
    assume "(est', c', n', p') \<in> set pq'"
    then have "distinct p' \<and> set p' \<subseteq> visited"
      using simple_inv_skip[OF inv ne pop] unfolding simple_inv_def by blast
    then show ?thesis by blast
  next
    assume "p' = path @ [n]"
    then show ?thesis using dp by simp
  qed
qed

lemma frontier_bound:
  assumes inv: "astar_inv adj factor h start goal pq visited"
    and cons: "consistent adj factor h goal"
    and w: "walk adj factor start p c v"
    and nv: "v \<notin> visited"
  shows "\<exists>e \<in> set pq. fst e \<le> c + h v goal"
  using w nv
proof (induction rule: walk.induct)
  case walk_start
  then have "(h start goal, 0, start, []) \<in> set pq"
    using inv by (auto simp: astar_inv_def)
  then show ?case by force
next
  case (walk_edge p c v x)
  show ?case
  proof (cases "v \<in> visited")
    case True
    then obtain d where d: "optimal adj factor start v d"
      and fr: "\<forall>x \<in> set (adj_get adj v). dest x \<notin> visited \<longrightarrow>
            (\<exists>p. astar_entry (+) h goal factor d p x \<in> set pq)"
      using inv unfolding astar_inv_def by blast
    from d walk_edge.hyps(1) have "d \<le> c" by (auto simp: optimal_def)
    moreover obtain q where "astar_entry (+) h goal factor d q x \<in> set pq"
      using fr walk_edge.hyps(2) walk_edge.prems by blast
    ultimately show ?thesis by (force simp: astar_entry_def)
  next
    case False
    then obtain e where e: "e \<in> set pq" "fst e \<le> c + h v goal"
      using walk_edge.IH by blast
    moreover have "h v goal \<le> weight factor x + h (dest x) goal"
      using consistentD[OF cons walk_edge.hyps(2)] .
    ultimately show ?thesis by force
  qed
qed

lemma pop_optimal:
  assumes inv: "astar_inv adj factor h start goal pq visited"
    and cons: "consistent adj factor h goal"
    and ne: "pq \<noteq> []" and pop: "heappop pq = ((est, c, n, path), pq')"
    and nv: "n \<notin> visited"
  shows "walk adj factor start (path @ [n]) c n" "optimal adj factor start n c"
proof -
  have mem: "(est, c, n, path) \<in> set pq" using heappop_props(1)[OF ne pop] .
  then have wk: "walk adj factor start (path @ [n]) c n"
    and est: "est = c + h n goal" using inv by (auto simp: astar_inv_def)
  show "walk adj factor start (path @ [n]) c n" by (rule wk)
  show "optimal adj factor start n c"
    unfolding optimal_def
  proof (intro allI impI)
    fix p' c' assume "walk adj factor start p' c' n"
    then obtain e where e: "e \<in> set pq" "fst e \<le> c' + h n goal"
      using frontier_bound[OF inv cons _ nv] by blast
    have "(est, c, n, path) \<le> e" using heappop_props(2)[OF ne pop e(1)] .
    then have "est \<le> fst e" by (cases e) (auto simp: less_eq_prod_def)
    then show "c \<le> c'" using e(2) est by simp
  qed
qed

lemma astar_inv_init:
  "astar_inv adj factor h start goal [(h start goal, 0, start, [])] {}"
  by (auto simp: astar_inv_def intro: walk_start)

lemma astar_inv_skip:
  assumes inv: "astar_inv adj factor h start goal pq visited"
    and ne: "pq \<noteq> []" and pop: "heappop pq = ((est, c, n, path), pq')"
    and v: "n \<in> visited"
  shows "astar_inv adj factor h start goal pq' visited"
proof -
  note sub = heappop_rest(1)[OF ne pop] and keep = heappop_rest(2)[OF ne pop]
  have i1: "\<forall>est c n p. (est, c, n, p) \<in> set pq' \<longrightarrow>
         est = c + h n goal \<and> walk adj factor start (p @ [n]) c n"
    using inv sub unfolding astar_inv_def by blast
  have i2: "start \<in> visited \<or> (h start goal, 0, start, []) \<in> set pq'"
  proof (cases "start \<in> visited")
    case False
    then have "(h start goal, 0, start, []) \<in> set pq" using inv by (auto simp: astar_inv_def)
    moreover have "(h start goal, 0, start, []) \<noteq> (est, c, n, path)" using False v by auto
    ultimately show ?thesis using keep by blast
  qed simp
  have i3: "\<forall>u \<in> visited. \<exists>d. optimal adj factor start u d \<and>
         (\<forall>x \<in> set (adj_get adj u). dest x \<notin> visited \<longrightarrow>
            (\<exists>p. astar_entry (+) h goal factor d p x \<in> set pq'))"
  proof
    fix u assume "u \<in> visited"
    then obtain d where d: "optimal adj factor start u d"
      and fr: "\<forall>x \<in> set (adj_get adj u). dest x \<notin> visited \<longrightarrow>
            (\<exists>p. astar_entry (+) h goal factor d p x \<in> set pq)"
      using inv unfolding astar_inv_def by blast
    have "\<exists>p. astar_entry (+) h goal factor d p x \<in> set pq'"
      if xin: "x \<in> set (adj_get adj u)" and xnv: "dest x \<notin> visited" for x
    proof -
      obtain p where p: "astar_entry (+) h goal factor d p x \<in> set pq" using fr xin xnv by blast
      have "astar_entry (+) h goal factor d p x \<noteq> (est, c, n, path)"
        using xnv v by (auto simp: astar_entry_def)
      then show ?thesis using keep[OF p] by blast
    qed
    then show "\<exists>d. optimal adj factor start u d \<and>
         (\<forall>x \<in> set (adj_get adj u). dest x \<notin> visited \<longrightarrow>
            (\<exists>p. astar_entry (+) h goal factor d p x \<in> set pq'))"
      using d by blast
  qed
  have i4: "goal \<notin> visited" using inv by (simp add: astar_inv_def)
  show ?thesis unfolding astar_inv_def using i1 i2 i3 i4 by blast
qed

lemma astar_inv_expand:
  assumes inv: "astar_inv adj factor h start goal pq visited"
    and cons: "consistent adj factor h goal"
    and ne: "pq \<noteq> []" and pop: "heappop pq = ((est, c, n, path), pq')"
    and nv: "n \<notin> visited" and ng: "n \<noteq> goal"
    and pq'': "pq'' = rev (map (astar_entry (+) h goal factor c (path @ [n])) (adj_get adj n)) @ pq'"
  shows "astar_inv adj factor h start goal pq'' (insert n visited)"
proof -
  note sub = heappop_rest(1)[OF ne pop] and keep = heappop_rest(2)[OF ne pop]
  note wk = pop_optimal(1)[OF inv cons ne pop nv] and opt = pop_optimal(2)[OF inv cons ne pop nv]
  have set'': "set pq'' = astar_entry (+) h goal factor c (path @ [n]) ` set (adj_get adj n) \<union> set pq'"
    using pq'' by simp
  have i1: "est' = c' + h n' goal \<and> walk adj factor start (p' @ [n']) c' n'"
    if mem: "(est', c', n', p') \<in> set pq''" for est' c' n' p'
  proof (cases "(est', c', n', p') \<in> set pq'")
    case True
    then show ?thesis using inv sub unfolding astar_inv_def by blast
  next
    case False
    then obtain x where x: "x \<in> set (adj_get adj n)"
      and e: "(est', c', n', p') = astar_entry (+) h goal factor c (path @ [n]) x"
      using mem set'' by auto
    have "walk adj factor start ((path @ [n]) @ [dest x]) (c + weight factor x) (dest x)"
      using walk_edge[OF wk x] .
    then show ?thesis using e by (simp add: astar_entry_def)
  qed
  have i2: "start \<in> insert n visited \<or> (h start goal, 0, start, []) \<in> set pq''"
  proof (cases "start \<in> insert n visited")
    case False
    then have "(h start goal, 0, start, []) \<in> set pq" using inv by (auto simp: astar_inv_def)
    moreover have "(h start goal, 0, start, []) \<noteq> (est, c, n, path)" using False by auto
    ultimately show ?thesis using keep set'' by blast
  qed simp
  have i3: "\<exists>d. optimal adj factor start u d \<and>
         (\<forall>x \<in> set (adj_get adj u). dest x \<notin> insert n visited \<longrightarrow>
            (\<exists>p. astar_entry (+) h goal factor d p x \<in> set pq''))"
    if u: "u \<in> insert n visited" for u
  proof (cases "u = n")
    case True
    have "\<forall>x \<in> set (adj_get adj n). \<exists>p. astar_entry (+) h goal factor c p x \<in> set pq''"
      using set'' by blast
    then show ?thesis using opt True by blast
  next
    case False
    then have "u \<in> visited" using u by simp
    then obtain d where d: "optimal adj factor start u d"
      and fr: "\<forall>x \<in> set (adj_get adj u). dest x \<notin> visited \<longrightarrow>
            (\<exists>p. astar_entry (+) h goal factor d p x \<in> set pq)"
      using inv unfolding astar_inv_def by blast
    have "\<exists>p. astar_entry (+) h goal factor d p x \<in> set pq''"
      if xin: "x \<in> set (adj_get adj u)" and xnv: "dest x \<notin> insert n visited" for x
    proof -
      obtain p where p: "astar_entry (+) h goal factor d p x \<in> set pq" using fr xin xnv by blast
      have "astar_entry (+) h goal factor d p x \<noteq> (est, c, n, path)"
        using xnv by (auto simp: astar_entry_def)
      then show ?thesis using keep[OF p] set'' by blast
    qed
    then show ?thesis using d by blast
  qed
  have i4: "goal \<notin> insert n visited" using inv ng by (simp add: astar_inv_def)
  show ?thesis unfolding astar_inv_def using i1 i2 i3 i4 by blast
qed

lemma exact_entries:
  assumes ex: "exact_sums fadd adj factor h start goal"
    and wk: "walk adj factor start p c n" and dp: "distinct p"
  shows "map (astar_entry fadd h goal factor c p') (adj_get adj n) =
         map (astar_entry (+) h goal factor c p') (adj_get adj n)"
proof (rule map_cong[OF refl])
  fix x assume "x \<in> set (adj_get adj n)"
  moreover have "list_all (\<lambda>x. fadd c (weight factor x) = c + weight factor x \<and>
                       fadd (c + weight factor x) (h (dest x) goal) =
                         c + weight factor x + h (dest x) goal) (adj_get adj n)"
    using ex wk dp unfolding exact_sums_def by blast
  ultimately show "astar_entry fadd h goal factor c p' x = astar_entry (+) h goal factor c p' x"
    by (simp add: astar_entry_def list_all_iff)
qed

lemma astar_loop_correct:
  "consistent adj factor h goal \<Longrightarrow> exact_sums fadd adj factor h start goal \<Longrightarrow>
   astar_inv adj factor h start goal pq visited \<Longrightarrow> simple_inv pq visited \<Longrightarrow>
   astar_loop fadd adj goal factor h pq visited = Inr r \<Longrightarrow>
   search_correct adj factor start goal (Inr r)"
proof (induction fadd adj goal factor h pq visited rule: astar_loop.induct)
  case (1 fadd adj goal factor h pq visited)
  note cons = "1.prems"(1) and ex = "1.prems"(2) and inv = "1.prems"(3)
    and sim = "1.prems"(4) and res = "1.prems"(5)
  show ?case
  proof (cases "pq = []")
    case True
    have "\<not> walk adj factor start p c goal" for p c
    proof
      assume "walk adj factor start p c goal"
      moreover have "goal \<notin> visited" using inv by (simp add: astar_inv_def)
      ultimately have "\<exists>e \<in> set pq. fst e \<le> c + h goal goal"
        using frontier_bound[OF inv cons] by blast
      with True show False by simp
    qed
    moreover have "r = (Infinity, [])" using res True by (simp add: astar_loop.simps)
    ultimately show ?thesis by (simp add: search_correct_def)
  next
    case False
    obtain est c n path pq' where pop: "heappop pq = ((est, c, n, path), pq')"
      by (cases "heappop pq") auto
    show ?thesis
    proof (cases "n \<in> visited")
      case True
      then have step: "astar_step fadd adj goal factor h pq visited = Continue (pq', visited)"
        using pop by (simp add: astar_step_def)
      have "astar_loop fadd adj goal factor h pq' visited = Inr r"
        using res False step by (subst (asm) astar_loop.simps) simp
      then show ?thesis
        using "1.IH"[OF False step refl cons ex astar_inv_skip[OF inv False pop True]
                simple_inv_skip[OF sim False pop]] by simp
    next
      case nv: False
      note wk = pop_optimal(1)[OF inv cons False pop nv]
      show ?thesis
      proof (cases "n = goal")
        case True
        then have step: "astar_step fadd adj goal factor h pq visited = Return (Finite c, path @ [n])"
          using pop nv by (simp add: astar_step_def)
        have r: "r = (Finite c, path @ [n])"
          using res False step by (subst (asm) astar_loop.simps) simp
        have "walk adj factor start (path @ [n]) c goal" "optimal adj factor start goal c"
          using pop_optimal[OF inv cons False pop nv] True by simp_all
        then show ?thesis using r by (simp add: search_correct_def)
      next
        case ng: False
        show ?thesis
        proof (cases "astar_push fadd h goal factor c (path @ [n]) (adj_get adj n) pq'")
          case (Inl err)
          then have "astar_step fadd adj goal factor h pq visited = Raise err"
            using pop nv ng by (simp add: astar_step_def)
          then show ?thesis using res False by (subst (asm) astar_loop.simps) simp
        next
          case (Inr pq'')
          then have step: "astar_step fadd adj goal factor h pq visited = Continue (pq'', insert n visited)"
            using pop nv ng by (simp add: astar_step_def)
          have "pq'' = rev (map (astar_entry fadd h goal factor c (path @ [n])) (adj_get adj n)) @ pq'"
            using astar_push_Inr(2)[OF Inr] .
          then have pq'': "pq'' = rev (map (astar_entry (+) h goal factor c (path @ [n]))
                                      (adj_get adj n)) @ pq'"
            using exact_entries[OF ex wk simple_inv_pop(1)[OF sim False pop nv]] by simp
          have "astar_loop fadd adj goal factor h pq'' (insert n visited) = Inr r"
            using res False step by (subst (asm) astar_loop.simps) simp
          then show ?thesis
            using "1.IH"[OF False step refl cons ex
                    astar_inv_expand[OF inv cons False pop nv ng pq'']
                    simple_inv_expand[OF sim False pop nv Inr]] by simp
        qed
      qed
    qed
  qed
qed

lemma walk_potential:
  assumes "consistent adj factor h goal" "walk adj factor v p c u"
  shows "h v goal \<le> c + h u goal"
  using assms(2)
proof (induction rule: walk.induct)
  case walk_start
  show ?case by simp
next
  case (walk_edge p c u x)
  then show ?case using consistentD[OF assms(1) walk_edge.hyps(2)] by simp
qed



lemma consistent_zero:
  "nonneg_weights adj factor \<Longrightarrow> consistent adj factor (\<lambda>a b. 0) goal"
  by (simp add: nonneg_weights_def consistent_def)

lemma astar_search_correct:
  assumes "consistent adj factor h goal" "exact_sums fadd adj factor h start goal"
    and "astar fadd adj start goal factor h = Inr r"
  shows "search_correct adj factor start goal (Inr r)"
proof -
  have "fadd 0 (h start goal) = h start goal" using assms(2) by (simp add: exact_sums_def)
  then have "astar_loop fadd adj goal factor h [(h start goal, 0, start, [])] {} = Inr r"
    using assms(3) by (simp add: astar_def)
  then show ?thesis
    using astar_loop_correct[OF assms(1,2) astar_inv_init] by (simp add: simple_inv_def)
qed

lemma dijkstra_search_correct:
  assumes "nonneg_weights adj factor" "zero_neutral fadd"
    and "exact_sums fadd adj factor (\<lambda>a b. 0) start goal"
    and "dijkstra fadd adj start goal factor = Inr r"
  shows "search_correct adj factor start goal (Inr r)"
  using astar_search_correct[OF consistent_zero[OF assms(1)] assms(3), of r] assms(4)
  by (simp add: astar_zero_dijkstra[OF assms(2)])

subsection \<open>Soundness for an arbitrary heuristic\<close>

lemma astar_loop_sound:
  "triples adj \<Longrightarrow> walk_inv adj factor start pq \<Longrightarrow>
   search_sound adj factor start goal (astar_loop fadd adj goal factor h pq visited)"
proof (induction fadd adj goal factor h pq visited rule: astar_loop.induct)
  case (1 fadd adj goal factor h pq visited)
  note tri = "1.prems"(1) and inv = "1.prems"(2)
  show ?case
  proof (cases "pq = []")
    case True
    then show ?thesis by (simp add: search_sound_def astar_loop.simps)
  next
    case False
    obtain est c n path pq' where pop: "heappop pq = ((est, c, n, path), pq')"
      by (cases "heappop pq") auto
    note sub = heappop_rest(1)[OF False pop]
    obtain cw where wk: "walk adj factor start (path @ [n]) cw n"
      using heappop_props(1)[OF False pop] inv unfolding walk_inv_def by blast
    have inv': "walk_inv adj factor start pq'"
      using inv sub unfolding walk_inv_def by blast
    show ?thesis
    proof (cases "n \<in> visited")
      case True
      then have step: "astar_step fadd adj goal factor h pq visited = Continue (pq', visited)"
        using pop by (simp add: astar_step_def)
      have "search_sound adj factor start goal (astar_loop fadd adj goal factor h pq' visited)"
        using "1.IH"[OF False step refl tri inv'] .
      then show ?thesis using False step by (subst astar_loop.simps) simp
    next
      case nv: False
      show ?thesis
      proof (cases "n = goal")
        case True
        then have step: "astar_step fadd adj goal factor h pq visited = Return (Finite c, path @ [n])"
          using pop nv by (simp add: astar_step_def)
        have "\<exists>c'. walk adj factor start (path @ [n]) c' goal" using wk True by blast
        then show ?thesis using False step
          by (subst astar_loop.simps) (simp add: search_sound_def)
      next
        case ng: False
        define pq'' where
          "pq'' = rev (map (astar_entry fadd h goal factor c (path @ [n])) (adj_get adj n)) @ pq'"
        have push: "astar_push fadd h goal factor c (path @ [n]) (adj_get adj n) pq' = Inr pq''"
          unfolding pq''_def by (rule astar_push_triples[OF triplesD[OF tri]])
        have step: "astar_step fadd adj goal factor h pq visited = Continue (pq'', insert n visited)"
          using pop nv ng push by (simp add: astar_step_def)
        have inv'': "walk_inv adj factor start pq''"
          unfolding walk_inv_def
        proof (intro allI impI)
          fix est' c' n' p' assume mem: "(est', c', n', p') \<in> set pq''"
          show "\<exists>cw'. walk adj factor start (p' @ [n']) cw' n'"
          proof (cases "(est', c', n', p') \<in> set pq'")
            case True
            then show ?thesis using inv' unfolding walk_inv_def by blast
          next
            case False
            then obtain x where x: "x \<in> set (adj_get adj n)"
              and e: "(est', c', n', p') = astar_entry fadd h goal factor c (path @ [n]) x"
              using mem pq''_def by auto
            have "walk adj factor start ((path @ [n]) @ [dest x]) (cw + weight factor x) (dest x)"
              using walk_edge[OF wk x] .
            then show ?thesis using e unfolding astar_entry_def by auto
          qed
        qed
        have "search_sound adj factor start goal
                (astar_loop fadd adj goal factor h pq'' (insert n visited))"
          using "1.IH"[OF False step refl tri inv''] .
        then show ?thesis using False step by (subst astar_loop.simps) simp
      qed
    qed
  qed
qed

lemma astar_sound:
  "triples adj \<Longrightarrow> search_sound adj factor start goal (astar fadd adj start goal factor h)"
  unfolding astar_def
  by (rule astar_loop_sound) (auto simp: walk_inv_def intro: walk_start)

lemma dijkstra_sound:
  "triples adj \<Longrightarrow> zero_neutral fadd \<Longrightarrow>
     search_sound adj factor start goal (dijkstra fadd adj start goal factor)"
  using astar_sound[of adj factor start goal fadd "\<lambda>a b. 0"] by (simp add: astar_zero_dijkstra)

subsection \<open>Simple paths\<close>

lemma astar_loop_simple:
  "simple_inv pq visited \<Longrightarrow> astar_loop fadd adj goal factor h pq visited = Inr (c, p) \<Longrightarrow>
     distinct p"
proof (induction fadd adj goal factor h pq visited rule: astar_loop.induct)
  case (1 fadd adj goal factor h pq visited)
  note inv = "1.prems"(1) and res = "1.prems"(2)
  show ?case
  proof (cases "pq = []")
    case True
    then show ?thesis using res by (simp add: astar_loop.simps)
  next
    case False
    obtain est g n path pq' where pop: "heappop pq = ((est, g, n, path), pq')"
      by (cases "heappop pq") auto
    show ?thesis
    proof (cases "n \<in> visited")
      case True
      then have step: "astar_step fadd adj goal factor h pq visited = Continue (pq', visited)"
        using pop by (simp add: astar_step_def)
      have "astar_loop fadd adj goal factor h pq' visited = Inr (c, p)"
        using res False step by (subst (asm) astar_loop.simps) simp
      then show ?thesis using "1.IH"[OF False step refl simple_inv_skip[OF inv False pop]] by simp
    next
      case nv: False
      show ?thesis
      proof (cases "n = goal")
        case True
        then have step: "astar_step fadd adj goal factor h pq visited = Return (Finite g, path @ [n])"
          using pop nv by (simp add: astar_step_def)
        have "p = path @ [n]"
          using res False step by (subst (asm) astar_loop.simps) simp
        then show ?thesis using simple_inv_pop(1)[OF inv False pop nv] by simp
      next
        case ng: False
        show ?thesis
        proof (cases "astar_push fadd h goal factor g (path @ [n]) (adj_get adj n) pq'")
          case (Inl err)
          then have "astar_step fadd adj goal factor h pq visited = Raise err"
            using pop nv ng by (simp add: astar_step_def)
          then show ?thesis using res False by (subst (asm) astar_loop.simps) simp
        next
          case (Inr pq'')
          then have step: "astar_step fadd adj goal factor h pq visited = Continue (pq'', insert n visited)"
            using pop nv ng by (simp add: astar_step_def)
          have "astar_loop fadd adj goal factor h pq'' (insert n visited) = Inr (c, p)"
            using res False step by (subst (asm) astar_loop.simps) simp
          then show ?thesis
            using "1.IH"[OF False step refl simple_inv_expand[OF inv False pop nv Inr]] by simp
        qed
      qed
    qed
  qed
qed

lemma astar_simple: "astar fadd adj start goal factor h = Inr (c, p) \<Longrightarrow> distinct p"
  using astar_loop_simple[of "[(fadd 0 (h start goal), 0, start, [])]" "{}" fadd adj goal factor h c p]
  by (simp add: astar_def simple_inv_def)

lemma dijkstra_push_triples:
  "list_all is_triple es \<Longrightarrow>
     dijkstra_push fadd factor cost path es pq =
       Inr (rev (map (dijkstra_entry fadd factor cost path) es) @ pq)"
proof (induction es arbitrary: pq)
  case Nil
  then show ?case by simp
next
  case (Cons x es)
  then show ?case
    by (cases x) (simp_all add: heappush_def dijkstra_entry_def weight_def)
qed

lemma dijkstra_push_not_triples:
  "\<not> list_all is_triple es \<Longrightarrow> dijkstra_push fadd factor cost path es pq = Inl ValueError"
proof (induction es arbitrary: pq)
  case Nil
  then show ?case by simp
next
  case (Cons x es)
  then show ?case by (cases x) simp_all
qed

lemma dijkstra_push_Inr:
  assumes "dijkstra_push fadd factor cost path es pq = Inr pq''"
  shows "list_all is_triple es"
    and "pq'' = rev (map (dijkstra_entry fadd factor cost path) es) @ pq"
proof -
  show t: "list_all is_triple es"
    using assms dijkstra_push_not_triples[of es fadd factor cost path pq] by auto
  show "pq'' = rev (map (dijkstra_entry fadd factor cost path) es) @ pq"
    using assms dijkstra_push_triples[OF t, of fadd factor cost path pq] by simp
qed

lemma dsimple_inv_skip:
  assumes "dsimple_inv pq visited" "pq \<noteq> []" "heappop pq = (m, pq')"
  shows "dsimple_inv pq' visited"
  using assms(1) heappop_rest(1)[OF assms(2,3)] unfolding dsimple_inv_def by blast

lemma dsimple_inv_pop:
  assumes "dsimple_inv pq visited" "pq \<noteq> []" "heappop pq = ((c, n, path), pq')"
    and "n \<notin> visited"
  shows "distinct (path @ [n])" "set (path @ [n]) \<subseteq> insert n visited"
proof -
  have "distinct path \<and> set path \<subseteq> visited"
    using heappop_props(1)[OF assms(2,3)] assms(1) unfolding dsimple_inv_def by blast
  then show "distinct (path @ [n])" "set (path @ [n]) \<subseteq> insert n visited"
    using assms(4) by auto
qed

lemma dsimple_inv_expand:
  assumes inv: "dsimple_inv pq visited" and ne: "pq \<noteq> []"
    and pop: "heappop pq = ((c, n, path), pq')" and nv: "n \<notin> visited"
    and push: "dijkstra_push fadd factor c (path @ [n]) es pq' = Inr pq''"
  shows "dsimple_inv pq'' (insert n visited)"
  unfolding dsimple_inv_def
proof (intro allI impI)
  fix c' n' p' assume mem: "(c', n', p') \<in> set pq''"
  note dp = dsimple_inv_pop[OF inv ne pop nv]
  have "(c', n', p') \<in> set pq' \<or> p' = path @ [n]"
    using mem dijkstra_push_Inr(2)[OF push] by (auto simp: dijkstra_entry_def)
  then show "distinct p' \<and> set p' \<subseteq> insert n visited"
  proof
    assume "(c', n', p') \<in> set pq'"
    then have "distinct p' \<and> set p' \<subseteq> visited"
      using dsimple_inv_skip[OF inv ne pop] unfolding dsimple_inv_def by blast
    then show ?thesis by blast
  next
    assume "p' = path @ [n]"
    then show ?thesis using dp by simp
  qed
qed

lemma dijkstra_loop_simple:
  "dsimple_inv pq visited \<Longrightarrow> dijkstra_loop fadd adj goal factor pq visited = Inr (c, p) \<Longrightarrow>
     distinct p"
proof (induction fadd adj goal factor pq visited rule: dijkstra_loop.induct)
  case (1 fadd adj goal factor pq visited)
  note inv = "1.prems"(1) and res = "1.prems"(2)
  show ?case
  proof (cases "pq = []")
    case True
    then show ?thesis using res by (simp add: dijkstra_loop.simps)
  next
    case False
    obtain g n path pq' where pop: "heappop pq = ((g, n, path), pq')"
      by (cases "heappop pq") auto
    show ?thesis
    proof (cases "n \<in> visited")
      case True
      then have step: "dijkstra_step fadd adj goal factor pq visited = Continue (pq', visited)"
        using pop by (simp add: dijkstra_step_def)
      have "dijkstra_loop fadd adj goal factor pq' visited = Inr (c, p)"
        using res False step by (subst (asm) dijkstra_loop.simps) simp
      then show ?thesis using "1.IH"[OF False step refl dsimple_inv_skip[OF inv False pop]] by simp
    next
      case nv: False
      show ?thesis
      proof (cases "n = goal")
        case True
        then have step: "dijkstra_step fadd adj goal factor pq visited = Return (Finite g, path @ [n])"
          using pop nv by (simp add: dijkstra_step_def)
        have "p = path @ [n]"
          using res False step by (subst (asm) dijkstra_loop.simps) simp
        then show ?thesis using dsimple_inv_pop(1)[OF inv False pop nv] by simp
      next
        case ng: False
        show ?thesis
        proof (cases "dijkstra_push fadd factor g (path @ [n]) (adj_get adj n) pq'")
          case (Inl err)
          then have "dijkstra_step fadd adj goal factor pq visited = Raise err"
            using pop nv ng by (simp add: dijkstra_step_def)
          then show ?thesis using res False by (subst (asm) dijkstra_loop.simps) simp
        next
          case (Inr pq'')
          then have step: "dijkstra_step fadd adj goal factor pq visited = Continue (pq'', insert n visited)"
            using pop nv ng by (simp add: dijkstra_step_def)
          have "dijkstra_loop fadd adj goal factor pq'' (insert n visited) = Inr (c, p)"
            using res False step by (subst (asm) dijkstra_loop.simps) simp
          then show ?thesis
            using "1.IH"[OF False step refl dsimple_inv_expand[OF inv False pop nv Inr]] by simp
        qed
      qed
    qed
  qed
qed

lemma dijkstra_simple: "dijkstra fadd adj start goal factor = Inr (c, p) \<Longrightarrow> distinct p"
  using dijkstra_loop_simple[of "[(0, start, [])]" "{}" fadd adj goal factor c p]
  by (simp add: dijkstra_def dsimple_inv_def)

lemma heappop_single: "heappop [x] = (x, [])"
  by (simp add: heappop_def)

lemma first_expansion_raises:
  assumes "start \<noteq> goal" "\<not> list_all is_triple (adj_get adj start)"
  shows "dijkstra fadd adj start goal factor = Inl ValueError"
    and "astar fadd adj start goal factor h = Inl ValueError"
  using assms
  by (simp_all add: dijkstra_def astar_def dijkstra_loop.simps astar_loop.simps
        dijkstra_step_def astar_step_def heappop_single
        dijkstra_push_not_triples astar_push_not_triples)

lemma adj_get_append_entry:
  "adj_get (append_entry adj k x) v = (if v = k then adj_get adj k @ [x] else adj_get adj v)"
  by (simp add: append_entry_def adj_get_def)

lemma only_pairs_append_entry:
  "only_pairs adj \<Longrightarrow> only_pairs (append_entry adj k (Entry2 t e))"
  by (auto simp: only_pairs_def adj_get_append_entry)

lemma build_adjacency_loop_pairs:
  "only_pairs adj \<Longrightarrow> only_pairs (build_adjacency_loop directed edges adj)"
proof (induction edges arbitrary: adj)
  case Nil
  then show ?case by simp
next
  case (Cons e edges)
  then show ?case by (simp add: Let_def only_pairs_append_entry)
qed

lemma build_adjacency_pairs: "only_pairs (build_adjacency edges directed)"
  unfolding build_adjacency_def
  by (rule build_adjacency_loop_pairs) (simp add: only_pairs_def adj_get_def)

lemma provider_view_raises:
  assumes "start \<noteq> goal" "adj_get (build_adjacency edges directed) start \<noteq> []"
  shows "dijkstra fadd (build_adjacency edges directed) start goal factor = Inl ValueError"
    and "astar fadd (build_adjacency edges directed) start goal factor h = Inl ValueError"
proof -
  obtain x where "x \<in> set (adj_get (build_adjacency edges directed) start)"
    using assms(2) by (cases "adj_get (build_adjacency edges directed) start") auto
  moreover from this have "\<not> is_triple x"
    using build_adjacency_pairs[of edges directed] unfolding only_pairs_def by blast
  ultimately have "\<not> list_all is_triple (adj_get (build_adjacency edges directed) start)"
    unfolding list_all_iff by blast
  from first_expansion_raises[OF assms(1) this]
  show "dijkstra fadd (build_adjacency edges directed) start goal factor = Inl ValueError"
    and "astar fadd (build_adjacency edges directed) start goal factor h = Inl ValueError"
    by simp_all
qed

lemma searches_return_on_triples:
  assumes "triples adj"
  shows "\<exists>r. astar fadd adj start goal factor h = Inr r"
    and "zero_neutral fadd \<Longrightarrow> \<exists>r. dijkstra fadd adj start goal factor = Inr r"
  using dijkstra_sound[OF assms, of fadd factor start goal]
    astar_sound[OF assms, of factor start goal fadd h]
  by (auto simp: search_sound_def)

lemma unreachable_on_triples:
  assumes "triples adj" "\<And>p c. \<not> walk adj factor start p c goal"
  shows "astar fadd adj start goal factor h = Inr (Infinity, [])"
    and "zero_neutral fadd \<Longrightarrow> dijkstra fadd adj start goal factor = Inr (Infinity, [])"
  using dijkstra_sound[OF assms(1), of fadd factor start goal]
    astar_sound[OF assms(1), of factor start goal fadd h] assms(2)
  by (auto simp: search_sound_def)

lemma absent_start:
  assumes "start \<notin> fmdom' adj" "start \<noteq> goal"
  shows "dijkstra fadd adj start goal factor = Inr (Infinity, [])"
    and "astar fadd adj start goal factor h = Inr (Infinity, [])"
  using assms adj_get_notin[OF assms(1)]
  by (simp_all add: dijkstra_def astar_def dijkstra_loop.simps astar_loop.simps
        dijkstra_step_def astar_step_def heappop_single)

lemma walk_nonneg:
  assumes "nonneg_weights adj factor" "walk adj factor v p c u"
  shows "0 \<le> c"
  using walk_potential[OF consistent_zero[OF assms(1)] assms(2)] by simp

lemma walk_endpoints:
  "walk adj factor start p c v \<Longrightarrow> p \<noteq> [] \<and> hd p = start \<and> last p = v"
  by (induction rule: walk.induct) (auto simp: hd_append)

lemma astar_step_same_lists:
  "(\<And>v. adj_get adj v = adj_get adj' v) \<Longrightarrow>
     astar_step fadd adj goal factor h pq visited = astar_step fadd adj' goal factor h pq visited"
  by (auto simp: astar_step_def split: prod.splits)

lemma astar_loop_same_lists:
  "(\<And>v. adj_get adj v = adj_get adj' v) \<Longrightarrow>
     astar_loop fadd adj goal factor h pq visited = astar_loop fadd adj' goal factor h pq visited"
proof (induction fadd adj goal factor h pq visited rule: astar_loop.induct)
  case (1 fadd adj goal factor h pq visited)
  note same = astar_step_same_lists[of adj adj' fadd, OF "1.prems"]
  show ?case
  proof (cases "pq = []")
    case True
    then show ?thesis by (simp add: astar_loop.simps)
  next
    case False
    show ?thesis
    proof (cases "astar_step fadd adj goal factor h pq visited")
      case (Raise err)
      then show ?thesis using False same[of goal factor h pq visited]
        by (simp add: astar_loop.simps[of fadd adj goal factor h pq visited]
              astar_loop.simps[of fadd adj' goal factor h pq visited])
    next
      case (Return r)
      then show ?thesis using False same[of goal factor h pq visited]
        by (simp add: astar_loop.simps[of fadd adj goal factor h pq visited]
              astar_loop.simps[of fadd adj' goal factor h pq visited])
    next
      case (Continue s)
      obtain pq' visited' where s: "s = (pq', visited')" by (cases s)
      have "astar_loop fadd adj goal factor h pq' visited' =
            astar_loop fadd adj' goal factor h pq' visited'"
        using "1.IH"[OF False Continue] s "1.prems" by simp
      then show ?thesis using False Continue s same[of goal factor h pq visited]
        by (simp add: astar_loop.simps[of fadd adj goal factor h pq visited]
              astar_loop.simps[of fadd adj' goal factor h pq visited])
    qed
  qed
qed

lemma absent_as_no_edges_astar:
  "astar fadd (fmupd x [] adj) start goal factor h =
   astar fadd (fmdrop x adj) start goal factor h"
proof -
  have "adj_get (fmupd x [] adj) v = adj_get (fmdrop x adj) v" for v
    by (simp add: adj_get_def)
  then show ?thesis unfolding astar_def by (rule astar_loop_same_lists)
qed

lemma absent_as_no_edges_dijkstra:
  "zero_neutral fadd \<Longrightarrow>
   dijkstra fadd (fmupd x [] adj) start goal factor =
   dijkstra fadd (fmdrop x adj) start goal factor"
  using absent_as_no_edges_astar[of fadd x adj start goal factor "\<lambda>a b. 0"]
  by (simp add: astar_zero_dijkstra)

lemma view1_walk: "walk view1 ''distance'' ''a'' [''a'', ''b'', ''c''] 2 ''c''"
proof -
  have w0: "walk view1 ''distance'' ''a'' [''a''] 0 ''a''" by (rule walk_start)
  have "hop ''a'' ''b'' 1 \<in> set (adj_get view1 ''a'')" by (simp add: view1_def adj_get_def)
  from walk_edge[OF w0 this]
  have w1: "walk view1 ''distance'' ''a'' [''a'', ''b''] 1 ''b''"
    by (simp add: hop_def road_def weight_def get_edge_weight_def)
  have "hop ''b'' ''c'' 1 \<in> set (adj_get view1 ''b'')" by (simp add: view1_def adj_get_def)
  from walk_edge[OF w1 this]
  show ?thesis by (simp add: hop_def road_def weight_def get_edge_weight_def)
qed



section \<open>The claims\<close>

text \<open>
  \<^bold>\<open>C8.\<close> For every edge record and every metric identifier the weight selector returns
  the distance for \<open>distance\<close>, the time for \<open>time\<close>, the monetary cost for \<open>cost\<close>, the
  emission for \<open>eco\<close>, one minus the safety score for \<open>safety\<close>, and the distance for any
  other identifier; on an edge whose magnitudes are non-negative and whose safety score lies
  in \<open>[0, 1]\<close> the weight is non-negative.
\<close>

theorem weight_selector:
  "get_edge_weight e ''distance'' = distance_km e \<and>
   get_edge_weight e ''time'' = time_min e \<and>
   get_edge_weight e ''cost'' = cost_usd e \<and>
   get_edge_weight e ''eco'' = emission_kgco2 e \<and>
   get_edge_weight e ''safety'' = 1 - safety_score e \<and>
   (m \<notin> {''distance'', ''time'', ''cost'', ''eco'', ''safety''} \<longrightarrow>
      get_edge_weight e m = distance_km e) \<and>
   (well_formed_edge e \<longrightarrow> 0 \<le> get_edge_weight e m)"
  by (simp add: get_edge_weight_def well_formed_edge_def)

text \<open>The selector on a concrete well-formed edge, with an unknown metric and with \<open>safety\<close>.\<close>

theorem weight_selector_witness:
  "''walking'' \<notin> {''distance'', ''time'', ''cost'', ''eco'', ''safety''} \<and>
   get_edge_weight (road ''a'' ''b'' 7) ''walking'' = 7 \<and>
   well_formed_edge (road ''a'' ''b'' 7) \<and>
   0 \<le> get_edge_weight (road ''a'' ''b'' 7) ''safety''"
  using weight_selector[of "road ''a'' ''b'' 7" "''walking''"]
    weight_selector[of "road ''a'' ''b'' 7" "''safety''"]
  by (simp add: road_def well_formed_edge_def)

text \<open>
  \<^bold>\<open>C6.\<close> For every node \<open>x\<close>, every adjacency view (whether or not it has \<open>x\<close> as a key),
  every metric and every heuristic, a search from \<open>x\<close> to \<open>x\<close> returns cost \<open>0\<close> and the
  path \<open>[x]\<close>; the first iteration of either loop returns before the neighbour list is
  read, so no edge is expanded.
\<close>

theorem start_is_goal:
  "dijkstra fadd adj x x factor = Inr (Finite 0, [x]) \<and>
   astar fadd adj x x factor h = Inr (Finite 0, [x]) \<and>
   dijkstra_step fadd adj x factor [(0, x, [])] {} = Return (Finite 0, [x]) \<and>
   astar_step fadd adj x factor h [(fadd 0 (h x x), 0, x, [])] {} = Return (Finite 0, [x])"
  by (simp add: dijkstra_def astar_def dijkstra_loop.simps astar_loop.simps
        dijkstra_step_def astar_step_def heappop_single)

text \<open>
  \<^bold>\<open>C4.\<close> For every adjacency view, start, goal and metric, the heuristic-guided search
  with the heuristic that is zero everywhere has the same outcome as the uninformed search:
  the same cost and path when one is returned, and the same error otherwise. The estimate
  of an entry is its cost plus zero, which is its cost: adding zero to a double changes
  nothing.
\<close>

theorem zero_heuristic_same_result:
  "zero_neutral fadd \<Longrightarrow>
   astar fadd adj start goal factor (\<lambda>a b. 0) = dijkstra fadd adj start goal factor"
  by (rule astar_zero_dijkstra)

text \<open>Both searches on the first example view, with exact sums.\<close>

theorem zero_heuristic_same_result_witness:
  "zero_neutral (+) \<and>
   dijkstra (+) view1 ''a'' ''c'' ''distance'' = Inr (Finite 2, [''a'', ''b'', ''c'']) \<and>
   astar (+) view1 ''a'' ''c'' ''distance'' (\<lambda>a b. 0) = Inr (Finite 2, [''a'', ''b'', ''c''])"
proof -
  have z: "zero_neutral (+)" by (simp add: zero_neutral_def)
  have d: "dijkstra (+) view1 ''a'' ''c'' ''distance'' = Inr (Finite 2, [''a'', ''b'', ''c''])"
    by (simp add: view1_def eval_simps)
  show ?thesis
    using z d zero_heuristic_same_result[OF z, of view1 "''a''" "''c''" "''distance''"] by simp
qed

text \<open>
  \<^bold>\<open>C10.\<close> Whenever either search returns a path, no node occurs twice in it.
\<close>

theorem returned_path_simple:
  "(dijkstra fadd adj start goal factor = Inr (c, p) \<longrightarrow> distinct p) \<and>
   (astar fadd adj start goal factor h = Inr (c', p') \<longrightarrow> distinct p')"
  using dijkstra_simple astar_simple by blast

text \<open>Both searches return the simple path \<open>a, b, c\<close> on the first example view.\<close>

theorem returned_path_simple_witness:
  "dijkstra (+) view1 ''a'' ''c'' ''distance'' = Inr (Finite 2, [''a'', ''b'', ''c'']) \<and>
   astar (+) view1 ''a'' ''c'' ''distance'' gentle = Inr (Finite 2, [''a'', ''b'', ''c'']) \<and>
   distinct [''a'', ''b'', ''c'']"
proof -
  have d: "dijkstra (+) view1 ''a'' ''c'' ''distance'' = Inr (Finite 2, [''a'', ''b'', ''c''])"
    by (simp add: view1_def eval_simps)
  have a: "astar (+) view1 ''a'' ''c'' ''distance'' gentle = Inr (Finite 2, [''a'', ''b'', ''c''])"
    by (simp add: view1_def gentle_def eval_simps)
  from returned_path_simple[where fadd = "(+)" and adj = view1 and start = "''a''"
      and goal = "''c''" and factor = "''distance''" and h = gentle and c = "Finite 2"
      and c' = "Finite 2" and p = "[''a'', ''b'', ''c'']" and p' = "[''a'', ''b'', ''c'']"] d a
  show ?thesis by blast
qed

text \<open>
  \<^bold>\<open>C1.\<close> The claim is that on every adjacency view with non-negative weights \<open>dijkstra\<close>
  returns a minimum-cost path from start to goal. On the view \<open>build_adjacency\<close> makes of
  the edges \<open>a \<midarrow> b\<close> of length \<open>2\<close> and \<open>b \<midarrow> c\<close> of length \<open>3\<close>, the path \<open>a, b, c\<close> of cost \<open>5\<close>
  exists, and \<open>dijkstra\<close> from \<open>a\<close> to \<open>c\<close> raises \<open>ValueError\<close> when it expands \<open>a\<close>.
\<close>

theorem dijkstra_provider_view_no_path:
  "0 \<le> get_edge_weight (road ''a'' ''b'' 2) ''distance'' \<and>
   0 \<le> get_edge_weight (road ''b'' ''c'' 3) ''distance'' \<and>
   dijkstra fadd (build_adjacency [road ''a'' ''b'' 2, road ''b'' ''c'' 3] False)
     ''a'' ''c'' ''distance'' = Inl ValueError"
  by (simp add: eval_simps)




text \<open>
  \<^bold>\<open>C9\<close> (amended). In either search, when the extracted entry's node is already finalized
  the iteration pushes nothing and leaves the visited set unchanged. When the extracted
  node is not yet finalized and the iteration goes on to the next one (it neither returns
  the goal nor raises), the node has been finalized and the frontier has gained exactly one
  entry for every outgoing edge in the node's neighbour list, whether or not the edge's
  destination is already finalized.
\<close>

theorem step_pushes_every_edge:
  "(heappop pq = ((c, n, p), pq') \<and> n \<in> visited \<longrightarrow>
      dijkstra_step fadd adj goal factor pq visited = Continue (pq', visited)) \<and>
   (heappop pq = ((c, n, p), pq') \<and> n \<notin> visited \<and>
      dijkstra_step fadd adj goal factor pq visited = Continue (pq'', visited') \<longrightarrow>
      visited' = insert n visited \<and>
      pq'' = rev (map (dijkstra_entry fadd factor c (p @ [n])) (adj_get adj n)) @ pq') \<and>
   (heappop apq = ((est, c, n, p), apq') \<and> n \<in> visited \<longrightarrow>
      astar_step fadd adj goal factor h apq visited = Continue (apq', visited)) \<and>
   (heappop apq = ((est, c, n, p), apq') \<and> n \<notin> visited \<and>
      astar_step fadd adj goal factor h apq visited = Continue (apq'', visited') \<longrightarrow>
      visited' = insert n visited \<and>
      apq'' = rev (map (astar_entry fadd h goal factor c (p @ [n])) (adj_get adj n)) @ apq')"
proof -
  have d: "visited' = insert n visited \<and>
      pq'' = rev (map (dijkstra_entry fadd factor c (p @ [n])) (adj_get adj n)) @ pq'"
    if pop: "heappop pq = ((c, n, p), pq')" and nv: "n \<notin> visited"
      and st: "dijkstra_step fadd adj goal factor pq visited = Continue (pq'', visited')"
  proof -
    have push: "dijkstra_push fadd factor c (p @ [n]) (adj_get adj n) pq' = Inr pq''"
      and v: "visited' = insert n visited"
      using st pop nv by (auto simp: dijkstra_step_def split: if_splits sum.splits)
    show ?thesis using dijkstra_push_Inr(2)[OF push] v by simp
  qed
  have a: "visited' = insert n visited \<and>
      apq'' = rev (map (astar_entry fadd h goal factor c (p @ [n])) (adj_get adj n)) @ apq'"
    if pop: "heappop apq = ((est, c, n, p), apq')" and nv: "n \<notin> visited"
      and st: "astar_step fadd adj goal factor h apq visited = Continue (apq'', visited')"
  proof -
    have push: "astar_push fadd h goal factor c (p @ [n]) (adj_get adj n) apq' = Inr apq''"
      and v: "visited' = insert n visited"
      using st pop nv by (auto simp: astar_step_def split: if_splits sum.splits)
    show ?thesis using astar_push_Inr(2)[OF push] v by simp
  qed
  have ds: "dijkstra_step fadd adj goal factor pq visited = Continue (pq', visited)"
    if "heappop pq = ((c, n, p), pq')" "n \<in> visited"
    using that by (simp add: dijkstra_step_def)
  have as: "astar_step fadd adj goal factor h apq visited = Continue (apq', visited)"
    if "heappop apq = ((est, c, n, p), apq')" "n \<in> visited"
    using that by (simp add: astar_step_def)
  show ?thesis using d a ds as by blast
qed

text \<open>
  Finalizing \<open>b\<close> on the first example view, with \<open>a\<close> already finalized, and then extracting
  the entry for \<open>a\<close>.
\<close>

theorem step_pushes_every_edge_witness:
  "heappop [(1 :: real, ''b'', [''a'']), (5, ''c'', [''a''])]
     = ((1, ''b'', [''a'']), [(5, ''c'', [''a''])]) \<and>
   ''b'' \<notin> {''a''} \<and>
   dijkstra_step (+) view1 ''z'' ''distance'' [(1, ''b'', [''a'']), (5, ''c'', [''a''])] {''a''} =
     Continue ([(2, ''a'', [''a'', ''b'']), (2, ''c'', [''a'', ''b'']), (5, ''c'', [''a''])],
               {''b'', ''a''}) \<and>
   rev (map (dijkstra_entry (+) ''distance'' 1 ([''a''] @ [''b''])) (adj_get view1 ''b'')) @
     [(5, ''c'', [''a''])] =
     [(2, ''a'', [''a'', ''b'']), (2, ''c'', [''a'', ''b'']), (5, ''c'', [''a''])] \<and>
   heappop [(2 :: real, 2 :: real, ''a'', [''a'', ''b''])] = ((2, 2, ''a'', [''a'', ''b'']), []) \<and>
   ''a'' \<in> {''b'', ''a''} \<and>
   astar_step (+) view1 ''z'' ''distance'' gentle [(2, 2, ''a'', [''a'', ''b''])] {''b'', ''a''} =
     Continue ([], {''b'', ''a''})"
proof -
  have pop: "heappop [(1 :: real, ''b'', [''a'']), (5, ''c'', [''a''])]
               = ((1, ''b'', [''a'']), [(5, ''c'', [''a''])])"
    by (simp add: heappop_def)
  have st: "dijkstra_step (+) view1 ''z'' ''distance''
              [(1, ''b'', [''a'']), (5, ''c'', [''a''])] {''a''} =
            Continue ([(2, ''a'', [''a'', ''b'']), (2, ''c'', [''a'', ''b'']), (5, ''c'', [''a''])],
               {''b'', ''a''})"
    by (simp add: view1_def eval_simps)
  have apop: "heappop [(2 :: real, 2 :: real, ''a'', [''a'', ''b''])]
                = ((2, 2, ''a'', [''a'', ''b'']), [])"
    by (simp add: heappop_def)
  note inst = step_pushes_every_edge[where fadd = "(+)" and adj = view1 and goal = "''z''"
      and factor = "''distance''" and h = gentle]
  from inst[where pq = "[(1, ''b'', [''a'']), (5, ''c'', [''a''])]" and c = 1 and n = "''b''"
      and p = "[''a'']" and pq' = "[(5, ''c'', [''a''])]" and visited = "{''a''}"
      and pq'' = "[(2, ''a'', [''a'', ''b'']), (2, ''c'', [''a'', ''b'']), (5, ''c'', [''a''])]"
      and visited' = "{''b'', ''a''}"] pop st
  have ents: "rev (map (dijkstra_entry (+) ''distance'' 1 ([''a''] @ [''b'']))
                 (adj_get view1 ''b'')) @ [(5, ''c'', [''a''])] =
     [(2, ''a'', [''a'', ''b'']), (2, ''c'', [''a'', ''b'']), (5, ''c'', [''a''])]"
    by simp
  from inst[where apq = "[(2, 2, ''a'', [''a'', ''b''])]" and est = 2 and c = 2 and n = "''a''"
      and p = "[''a'', ''b'']" and apq' = "[]" and visited = "{''b'', ''a''}"] apop
  have a: "astar_step (+) view1 ''z'' ''distance'' gentle [(2, 2, ''a'', [''a'', ''b''])]
             {''b'', ''a''} = Continue ([], {''b'', ''a''})"
    by simp
  show ?thesis using pop st ents apop a by simp
qed

text \<open>
  The first two iterations of \<open>dijkstra\<close> on the first example view: when \<open>b\<close> is finalized,
  an entry is pushed for its neighbour \<open>a\<close>, which was finalized in the first iteration.
\<close>

theorem push_only_unvisited_counterexample:
  "dijkstra_step (+) view1 ''z'' ''distance'' [(0, ''a'', [])] {} =
     Continue ([(5, ''c'', [''a'']), (1, ''b'', [''a''])], {''a''}) \<and>
   dijkstra_step (+) view1 ''z'' ''distance'' [(5, ''c'', [''a'']), (1, ''b'', [''a''])] {''a''} =
     Continue ([(2, ''a'', [''a'', ''b'']), (2, ''c'', [''a'', ''b'']), (5, ''c'', [''a''])],
               {''b'', ''a''}) \<and>
   ''a'' \<in> {''a''}"
  by (simp add: view1_def eval_simps)

text \<open>
  \<^bold>\<open>C3.\<close> The claim is that both searches run without failure on every view of the shape
  \<open>build_adjacency\<close> produces. On the view built from the single edge \<open>a \<longrightarrow> b\<close> (mirrored,
  as by default), searching from \<open>a\<close> to \<open>b\<close> raises \<open>ValueError\<close> in both variants: the
  loop unpacks three names from the 2-tuple \<open>(neighbor, edge)\<close>.
\<close>

theorem provider_view_search_fails:
  "dijkstra fadd (build_adjacency [road ''a'' ''b'' 1] False) ''a'' ''b'' ''distance''
     = Inl ValueError \<and>
   astar fadd (build_adjacency [road ''a'' ''b'' 1] False) ''a'' ''b'' ''distance'' (\<lambda>u v. 0)
     = Inl ValueError"
  by (simp add: eval_simps)

text \<open>
  \<^bold>\<open>C5.\<close> The claim is that both searches terminate and return a result for every
  heuristic. Both loops terminate on every input (their termination proofs above do not
  mention the heuristic), and on views of triples \<open>astar\<close> returns a result for every
  heuristic (\<open>searches_return_on_triples\<close>); on a view built by \<open>build_adjacency\<close> the
  outcome is not a result but \<open>ValueError\<close>, here with a heuristic that overestimates.
\<close>

theorem overestimate_provider_view_no_result:
  "astar fadd (build_adjacency [road ''a'' ''b'' 1, road ''b'' ''c'' 1] False)
     ''a'' ''c'' ''distance'' (\<lambda>u v. 100) = Inl ValueError \<and>
   dijkstra fadd (build_adjacency [road ''a'' ''b'' 1, road ''b'' ''c'' 1] False)
     ''a'' ''c'' ''distance'' = Inl ValueError"
  by (simp add: eval_simps)

text \<open>
  \<^bold>\<open>C7.\<close> The claim is that an unreachable goal yields infinite cost and the empty path,
  never an exception, and that an absent node behaves as a node without outgoing edges.
  That holds on views of triples (\<open>unreachable_on_triples\<close>), when the start is absent
  from the view (\<open>absent_start\<close>), and for absent nodes in general
  (\<open>absent_as_no_edges_astar\<close>); on the directed view built by
  \<open>build_adjacency\<close> from the edge \<open>a \<longrightarrow> b\<close>, where \<open>z\<close> cannot be reached from \<open>a\<close>, both
  searches raise \<open>ValueError\<close>.
\<close>

theorem unreachable_provider_view_raises:
  "dijkstra fadd (build_adjacency [road ''a'' ''b'' 1] True) ''a'' ''z'' ''time''
     = Inl ValueError \<and>
   astar fadd (build_adjacency [road ''a'' ''b'' 1] True) ''a'' ''z'' ''time'' (\<lambda>u v. 0)
     = Inl ValueError"
  by (simp add: eval_simps)

end
